theory Spec2Isabelle
  imports Main "HOL-Library.Word" "HOL-Library.Log_Nat"
begin

unbundle bit_operations_syntax

section \<open>The binary protocol of protocol.go\<close>

text \<open>
  A shallow embedding of the codec in \<^verbatim>\<open>protocol.go\<close>: the varint functions
  \<^verbatim>\<open>encodeVarint\<close> and \<^verbatim>\<open>decodeVarint\<close>, the recursive \<^verbatim>\<open>encodeElement\<close> and
  \<^verbatim>\<open>decodeElement\<close>, their wrappers \<^verbatim>\<open>encode\<close> and \<^verbatim>\<open>decode\<close>, and
  \<^verbatim>\<open>compareDataInput\<close>.

  Conventions of the model.
  \<^item> A Go \<^verbatim>\<open>string\<close> and a \<^verbatim>\<open>[]byte\<close> are lists of bytes; \<^verbatim>\<open>uint64\<close>, \<^verbatim>\<open>uint32\<close>
    and \<^verbatim>\<open>byte\<close> are words, so that shifts and conversions wrap as in Go. An
    \<^verbatim>\<open>int32\<close> is kept as its 32-bit pattern; \<open>sint\<close> reads its signed value.
  \<^item> Go's \<^verbatim>\<open>int\<close> has 64 bits (the linux/amd64 build of the repository). Offsets
    into the input are natural numbers; the one sum that can leave the range of
    \<^verbatim>\<open>int\<close>, \<^verbatim>\<open>offset+int(length)\<close>, is computed on 64-bit words and read back
    with \<open>sint\<close>.
  \<^item> An \<^verbatim>\<open>interface{}\<close> value is one of the five cases of the type switch in
    \<^verbatim>\<open>encodeElement\<close>: \<^verbatim>\<open>nil\<close>, a \<^verbatim>\<open>string\<close>, an \<^verbatim>\<open>int32\<close>, a non-nil
    \<^verbatim>\<open>*DataInput\<close> (a finite tree), or a value of any other type.
  \<^item> A run-time panic is the result \<open>Panics\<close>; a Go \<^verbatim>\<open>error\<close> is a value of the
    type \<open>error\<close>, one constructor for each message of the source.
\<close>

type_synonym byte = "8 word"
type_synonym uint32 = "32 word"
type_synonym uint64 = "64 word"

datatype error =
    VarintTooLong                \<comment> \<open>"varint too long"\<close>
  | IncompleteVarint             \<comment> \<open>"incomplete varint"\<close>
  | UnsupportedType              \<comment> \<open>"unsupported type: %T"\<close>
  | UnexpectedEndOfData          \<comment> \<open>"unexpected end of data"\<close>
  | StringLengthExceedsData      \<comment> \<open>"string length exceeds data"\<close>
  | InvalidUTF8String            \<comment> \<open>"invalid UTF-8 string"\<close>
  | InsufficientDataForInt32     \<comment> \<open>"insufficient data for int32"\<close>
  | UnknownTypeTag byte          \<comment> \<open>"unknown type tag: %02x"\<close>

datatype panic =
    IndexOutOfRange              \<comment> \<open>index out of range\<close>
  | SliceBoundsOutOfRange        \<comment> \<open>slice bounds out of range\<close>
  | MakesliceCapOutOfRange       \<comment> \<open>makeslice: cap out of range\<close>

datatype 'a exec = Returns 'a | Panics panic

datatype elem =
    GoNil
  | GoString "byte list"
  | GoInt32 uint32
  | DataInput "elem list"
  | Unsupported

definition TypeString :: byte where "TypeString = 0x01"
definition TypeInt32 :: byte where "TypeInt32 = 0x02"
definition TypeDataInput :: byte where "TypeDataInput = 0x03"
definition TypeNull :: byte where "TypeNull = 0x00"

subsection \<open>Varints\<close>

text \<open>
  \<^verbatim>\<open>encodeVarint\<close> fills a \<^verbatim>\<open>[10]byte\<close> array at index \<open>i\<close>; an index outside the
  array panics. The loop state is \<open>(n, i, buf)\<close>.
\<close>

function encodeVarint_loop :: "uint64 \<Rightarrow> nat \<Rightarrow> byte list \<Rightarrow> byte list exec" where
  "encodeVarint_loop n i buf =
     (if n \<ge> 0x80 then
        (if i < length buf
         then encodeVarint_loop (drop_bit 7 n) (i + 1) (buf[i := ucast n OR 0x80])
         else Panics IndexOutOfRange)
      else
        (if i < length buf
         then Returns (take (i + 1) (buf[i := ucast n]))
         else Panics IndexOutOfRange))"
  by pat_completeness auto

lemma drop_bit_7_less: "(0x80 :: uint64) \<le> n \<Longrightarrow> unat (drop_bit 7 n) < unat n"
proof -
  assume "0x80 \<le> n"
  then have "128 \<le> unat n" by (simp add: word_le_nat_alt)
  moreover have "unat (drop_bit 7 n) = unat n div 2 ^ 7"
    by (simp add: drop_bit_eq_div unat_div)
  ultimately show ?thesis by simp
qed

termination encodeVarint_loop
  by (relation "measure (\<lambda>(n, i, buf). unat n)") (auto simp: drop_bit_7_less)

definition encodeVarint :: "uint64 \<Rightarrow> byte list exec" where
  "encodeVarint n = encodeVarint_loop n 0 [0, 0, 0, 0, 0, 0, 0, 0, 0, 0]"

text \<open>
  \<^verbatim>\<open>decodeVarint\<close> returns the triple (value, bytes consumed, error). A shift by 64 or
  more gives 0 in Go, as \<open>push_bit\<close> does on a 64-bit word.
\<close>

function decodeVarint_loop ::
  "byte list \<Rightarrow> nat \<Rightarrow> uint64 \<Rightarrow> nat \<Rightarrow> uint64 \<times> nat \<times> error option" where
  "decodeVarint_loop data i n shift =
     (if i < length data then
        (if i > 9 then (0, 0, Some VarintTooLong)
         else
           let b = data ! i;
               n' = n OR push_bit shift (ucast (b AND 0x7F))
           in if b < 0x80 then (n', i + 1, None)
              else decodeVarint_loop data (i + 1) n' (shift + 7))
      else (0, 0, Some IncompleteVarint))"
  by pat_completeness auto

termination decodeVarint_loop
  by (relation "measure (\<lambda>(data, i, n, shift). length data - i)") auto

definition decodeVarint :: "byte list \<Rightarrow> uint64 \<times> nat \<times> error option" where
  "decodeVarint data = decodeVarint_loop data 0 0 0"

subsection \<open>Library functions used by the codec\<close>

text \<open>
  \<^verbatim>\<open>utf8.ValidString\<close>, \<^verbatim>\<open>binary.LittleEndian.PutUint32\<close> and
  \<^verbatim>\<open>binary.LittleEndian.Uint32\<close> belong to the Go standard library. \<open>ValidString\<close>
  accepts the well-formed UTF-8 byte sequences: the lead byte fixes the number of
  continuation bytes and the range of the first of them, as the tables
  \<^verbatim>\<open>first\<close> and \<^verbatim>\<open>acceptRanges\<close> of package \<^verbatim>\<open>unicode/utf8\<close> do.
\<close>

definition locb :: byte where "locb = 0x80"
definition hicb :: byte where "hicb = 0xBF"

definition inRange :: "byte \<Rightarrow> byte \<Rightarrow> byte \<Rightarrow> bool" where
  "inRange lo hi c \<longleftrightarrow> lo \<le> c \<and> c \<le> hi"

fun ValidString :: "byte list \<Rightarrow> bool" where
  "ValidString [] = True"
| "ValidString (b # s) =
     (if b < 0x80 then ValidString s
      else if 0xC2 \<le> b \<and> b \<le> 0xDF then
        (case s of
           c1 # s1 \<Rightarrow> inRange locb hicb c1 \<and> ValidString s1
         | _ \<Rightarrow> False)
      else if 0xE0 \<le> b \<and> b \<le> 0xEF then
        (case s of
           c1 # c2 # s2 \<Rightarrow>
             inRange (if b = 0xE0 then 0xA0 else locb) (if b = 0xED then 0x9F else hicb) c1
             \<and> inRange locb hicb c2 \<and> ValidString s2
         | _ \<Rightarrow> False)
      else if 0xF0 \<le> b \<and> b \<le> 0xF4 then
        (case s of
           c1 # c2 # c3 # s3 \<Rightarrow>
             inRange (if b = 0xF0 then 0x90 else locb) (if b = 0xF4 then 0x8F else hicb) c1
             \<and> inRange locb hicb c2 \<and> inRange locb hicb c3 \<and> ValidString s3
         | _ \<Rightarrow> False)
      else False)"

definition PutUint32 :: "uint32 \<Rightarrow> byte list" where
  "PutUint32 v = [ucast v, ucast (drop_bit 8 v), ucast (drop_bit 16 v), ucast (drop_bit 24 v)]"

definition Uint32 :: "byte list \<Rightarrow> uint32" where
  "Uint32 b = ucast (b ! 0) OR push_bit 8 (ucast (b ! 1)) OR push_bit 16 (ucast (b ! 2))
                OR push_bit 24 (ucast (b ! 3))"

text \<open>
  \<^verbatim>\<open>make([]interface{}, 0, count)\<close> panics when the capacity times the element size
  (16 bytes for an interface value) overflows or exceeds the runtime's \<^verbatim>\<open>maxAlloc\<close>,
  which is \<open>2 ^ 48\<close> on linux/amd64; a negative capacity is such an overflow.
  Running out of memory below that bound is not modelled.
\<close>

definition maxAlloc :: nat where "maxAlloc = 2 ^ 48"

definition makeslice_ok :: "uint64 \<Rightarrow> bool" where
  "makeslice_ok cap \<longleftrightarrow> 16 * unat cap \<le> maxAlloc"

subsection \<open>The encoder\<close>

text \<open>The \<^verbatim>\<open>buffer\<close> struct holds one byte slice; its two methods append to it.\<close>

definition Write :: "byte list \<Rightarrow> byte list \<Rightarrow> byte list" where
  "Write b p = b @ p"

definition WriteByte :: "byte list \<Rightarrow> byte \<Rightarrow> byte list" where
  "WriteByte b c = b @ [c]"

text \<open>
  \<^verbatim>\<open>encodeElement\<close> takes the buffer and returns it updated, with the error.
  \<open>encodeElement_range\<close> is the \<^verbatim>\<open>for _, subElem := range v.elements\<close> loop, which
  returns at the first error and leaves in the buffer what was written so far.
\<close>

fun encodeElement :: "byte list \<Rightarrow> elem \<Rightarrow> (byte list \<times> error option) exec"
and encodeElement_range :: "byte list \<Rightarrow> elem list \<Rightarrow> (byte list \<times> error option) exec" where
  "encodeElement buf (GoString v) =
     (let buf1 = WriteByte buf TypeString; bytes = v in
      case encodeVarint (of_nat (length bytes)) of
        Panics p \<Rightarrow> Panics p
      | Returns vb \<Rightarrow> Returns (Write (Write buf1 vb) bytes, None))"
| "encodeElement buf (GoInt32 v) =
     Returns (Write (WriteByte buf TypeInt32) (PutUint32 v), None)"
| "encodeElement buf (DataInput elements) =
     (let buf1 = WriteByte buf TypeDataInput in
      case encodeVarint (of_nat (length elements)) of
        Panics p \<Rightarrow> Panics p
      | Returns vb \<Rightarrow> encodeElement_range (Write buf1 vb) elements)"
| "encodeElement buf GoNil = Returns (WriteByte buf TypeNull, None)"
| "encodeElement buf Unsupported = Returns (buf, Some UnsupportedType)"
| "encodeElement_range buf [] = Returns (buf, None)"
| "encodeElement_range buf (subElem # rest) =
     (case encodeElement buf subElem of
        Panics p \<Rightarrow> Panics p
      | Returns (buf1, Some err) \<Rightarrow> Returns (buf1, Some err)
      | Returns (buf1, None) \<Rightarrow> encodeElement_range buf1 rest)"

text \<open>\<^verbatim>\<open>encode\<close> ignores the error of \<^verbatim>\<open>encodeElement\<close> and returns the buffer.\<close>

definition encode :: "elem \<Rightarrow> byte list exec" where
  "encode toSend =
     (case encodeElement [] toSend of
        Panics p \<Rightarrow> Panics p
      | Returns (data, _) \<Rightarrow> Returns data)"

subsection \<open>The decoder\<close>

text \<open>
  \<^verbatim>\<open>decodeElement\<close> returns the triple (element, new offset, error); every error
  return of the source is \<^verbatim>\<open>nil, 0, err\<close>. \<open>decodeElement_loop\<close> is the loop
  \<^verbatim>\<open>for i := 0; i < int(count); i++\<close> of the \<^verbatim>\<open>TypeDataInput\<close> case, with the
  slice \<^verbatim>\<open>elements\<close> as an accumulator.

  In the \<^verbatim>\<open>TypeString\<close> case \<open>end\<close> is \<^verbatim>\<open>offset+int(length)\<close> in 64-bit signed
  arithmetic. The slice expression \<^verbatim>\<open>data[offset : offset+int(length)]\<close> is reached
  only when \<open>end\<close> is at most \<^verbatim>\<open>len(data)\<close>, and panics when \<open>end\<close> is below
  \<open>offset\<close>.
\<close>

function decodeElement :: "byte list \<Rightarrow> nat \<Rightarrow> (elem \<times> nat \<times> error option) exec"
and decodeElement_loop ::
  "byte list \<Rightarrow> uint64 \<Rightarrow> nat \<Rightarrow> nat \<Rightarrow> elem list \<Rightarrow> (elem \<times> nat \<times> error option) exec" where
  "decodeElement data offset =
     (if offset \<ge> length data then Returns (GoNil, 0, Some UnexpectedEndOfData)
      else
        let typeTag = data ! offset; offset1 = offset + 1 in
        if typeTag = TypeString then
          (case decodeVarint (drop offset1 data) of
             (len, consumed, Some err) \<Rightarrow> Returns (GoNil, 0, Some err)
           | (len, consumed, None) \<Rightarrow>
               let offset2 = offset1 + consumed;
                   end = sint (of_nat offset2 + len)
               in if end > int (length data) then Returns (GoNil, 0, Some StringLengthExceedsData)
                  else if end < int offset2 then Panics SliceBoundsOutOfRange
                  else
                    let str = take (nat end - offset2) (drop offset2 data) in
                    if \<not> ValidString str then Returns (GoNil, 0, Some InvalidUTF8String)
                    else Returns (GoString str, nat end, None))
        else if typeTag = TypeInt32 then
          (if offset1 + 4 > length data then Returns (GoNil, 0, Some InsufficientDataForInt32)
           else Returns (GoInt32 (Uint32 (take 4 (drop offset1 data))), offset1 + 4, None))
        else if typeTag = TypeDataInput then
          (case decodeVarint (drop offset1 data) of
             (count, consumed, Some err) \<Rightarrow> Returns (GoNil, 0, Some err)
           | (count, consumed, None) \<Rightarrow>
               let offset2 = offset1 + consumed in
               if \<not> makeslice_ok count then Panics MakesliceCapOutOfRange
               else decodeElement_loop data count 0 offset2 [])
        else if typeTag = TypeNull then Returns (GoNil, offset1, None)
        else Returns (GoNil, 0, Some (UnknownTypeTag typeTag)))"
| "decodeElement_loop data count i offset elements =
     (if int i < sint count then
        (case decodeElement data offset of
           Panics p \<Rightarrow> Panics p
         | Returns (elem, bytesRead, Some err) \<Rightarrow> Returns (GoNil, 0, Some err)
         | Returns (elem, bytesRead, None) \<Rightarrow>
             decodeElement_loop data count (i + 1) bytesRead (elements @ [elem]))
      else Returns (DataInput elements, offset, None))"
  by pat_completeness auto

text \<open>
  Termination: a successful \<open>decodeElement\<close> moves the offset forward and started
  inside the input, so the rest of the input shrinks with every iteration of the loop.
\<close>

lemma decodeElement_progress:
  "decodeElement_decodeElement_loop_dom (Inl (data, offset)) \<Longrightarrow>
     decodeElement data offset = Returns (v, off', None) \<Longrightarrow>
     offset < off' \<and> offset < length data"
  "decodeElement_decodeElement_loop_dom (Inr (data, count, i, offset, elements)) \<Longrightarrow>
     decodeElement_loop data count i offset elements = Returns (v, off', None) \<Longrightarrow>
     offset \<le> off'"
proof (induction arbitrary: v off' and v off' rule: decodeElement_decodeElement_loop.pinduct)
  case (1 data offset)
  from "1.prems" "1.hyps" show ?case
    apply (simp add: decodeElement.psimps Let_def split: if_splits prod.splits option.splits)
    apply (auto dest!: "1.IH"[rotated -1])
    done
next
  case (2 data count i offset elements)
  show ?case
  proof (cases "int i < sint count")
    case True
    with "2.prems" "2.hyps" obtain elem bytesRead where
      a: "decodeElement data offset = Returns (elem, bytesRead, None)" and
      b: "decodeElement_loop data count (i + 1) bytesRead (elements @ [elem])
            = Returns (v, off', None)"
      by (auto simp: decodeElement_loop.psimps split: exec.splits prod.splits option.splits)
    from "2.IH"(1)[OF True a] have "offset < bytesRead" ..
    moreover from "2.IH"(2)[OF True a refl refl refl b] have "bytesRead \<le> off'" .
    ultimately show ?thesis by simp
  next
    case False
    with "2.prems" "2.hyps" show ?thesis
      by (simp add: decodeElement_loop.psimps)
  qed
qed

termination decodeElement
proof (relation "measure (\<lambda>x. case x of
          Inl (data, offset) \<Rightarrow> 2 * (length data - offset)
        | Inr (data, count, i, offset, elements) \<Rightarrow> 2 * (length data - offset) + 1)")
  show "wf (measure (\<lambda>x. case x of
          Inl (data, offset) \<Rightarrow> 2 * (length data - offset)
        | Inr (data, count, i, offset, elements) \<Rightarrow> 2 * (length data - offset) + 1))"
    by simp
next
  fix data :: "byte list" and offset xa xc xd :: nat and xb :: uint64
  assume "\<not> length data \<le> offset" "xa = offset + 1" "xd = xa + xc"
  then show "(Inr (data, xb, 0, xd, []), Inl (data, offset)) \<in> measure (\<lambda>x. case x of
          Inl (data, offset) \<Rightarrow> 2 * (length data - offset)
        | Inr (data, count, i, offset, elements) \<Rightarrow> 2 * (length data - offset) + 1)"
    by simp
next
  fix data :: "byte list" and count :: uint64 and i offset :: nat and elements :: "elem list"
  show "(Inl (data, offset), Inr (data, count, i, offset, elements)) \<in> measure (\<lambda>x. case x of
          Inl (data, offset) \<Rightarrow> 2 * (length data - offset)
        | Inr (data, count, i, offset, elements) \<Rightarrow> 2 * (length data - offset) + 1)"
    by simp
next
  fix data :: "byte list" and count :: uint64 and i offset :: nat and elements :: "elem list"
    and x1 x y xa ya
  assume "decodeElement data offset = Returns x1" "(x, y) = x1" "(xa, ya) = y" "ya = None"
    and "decodeElement_decodeElement_loop_dom (Inl (data, offset))"
  then have "offset < xa \<and> offset < length data"
    using decodeElement_progress(1)[of data offset x xa] by auto
  then show "(Inr (data, count, i + 1, xa, elements @ [x]), Inr (data, count, i, offset, elements))
      \<in> measure (\<lambda>x. case x of
          Inl (data, offset) \<Rightarrow> 2 * (length data - offset)
        | Inr (data, count, i, offset, elements) \<Rightarrow> 2 * (length data - offset) + 1)"
    by auto
qed

text \<open>\<^verbatim>\<open>decode\<close> keeps the first component of the triple and drops the other two.\<close>

definition decode :: "byte list \<Rightarrow> elem exec" where
  "decode received =
     (case decodeElement received 0 of
        Panics p \<Rightarrow> Panics p
      | Returns (result, _, _) \<Rightarrow> Returns result)"

subsection \<open>Structural comparison\<close>

text \<open>
  \<^verbatim>\<open>compareDataInput\<close>: after the length test, the loop over \<^verbatim>\<open>va.elements\<close>
  compares the elements at equal positions and returns false at the first difference.
\<close>

fun compareDataInput :: "elem \<Rightarrow> elem \<Rightarrow> bool" where
  "compareDataInput (GoString va) b = (case b of GoString vb \<Rightarrow> va = vb | _ \<Rightarrow> False)"
| "compareDataInput (GoInt32 va) b = (case b of GoInt32 vb \<Rightarrow> va = vb | _ \<Rightarrow> False)"
| "compareDataInput (DataInput va) b =
     (case b of
        DataInput vb \<Rightarrow>
          length va = length vb \<and> list_all2 compareDataInput va vb
      | _ \<Rightarrow> False)"
| "compareDataInput GoNil b = (b = GoNil)"
| "compareDataInput Unsupported b = False"

subsection \<open>The bytes of a varint as a list\<close>

text \<open>
  A device of the proofs: the bytes that the loop of \<^verbatim>\<open>encodeVarint\<close> writes, as a
  recursive function of \<open>n\<close>. Lemma \<open>encodeVarint_eq\<close> below shows that
  \<open>encodeVarint\<close> returns exactly this list, and never panics.
\<close>

function varint_bytes :: "uint64 \<Rightarrow> byte list" where
  "varint_bytes n =
     (if n \<ge> 0x80 then (ucast n OR 0x80) # varint_bytes (drop_bit 7 n) else [ucast n])"
  by pat_completeness auto

termination varint_bytes
  by (relation "measure unat") (auto simp: drop_bit_7_less)

declare varint_bytes.simps [simp del]

subsection \<open>The output of the encoder and the values of the data model\<close>

text \<open>
  Devices of the proofs. \<open>wire v\<close> names the bytes that \<^verbatim>\<open>encode\<close> returns for \<open>v\<close>, and
  \<open>prepend\<close> puts a buffer in front of a result of \<^verbatim>\<open>encodeElement\<close>.
\<close>

definition wire :: "elem \<Rightarrow> byte list" where
  "wire v = (case encode v of Returns bs \<Rightarrow> bs | Panics p \<Rightarrow> [])"

definition prepend ::
  "byte list \<Rightarrow> (byte list \<times> error option) exec \<Rightarrow> (byte list \<times> error option) exec" where
  "prepend buf r = (case r of Panics p \<Rightarrow> Panics p | Returns (bs, e) \<Rightarrow> Returns (buf @ bs, e))"

text \<open>
  \<open>model_value\<close> holds for the values of the four shapes of the data model: \<^verbatim>\<open>nil\<close>, a
  string of valid UTF-8, an \<^verbatim>\<open>int32\<close>, and a \<^verbatim>\<open>*DataInput\<close> of such values.
  \<open>allocated\<close> says that every slice of elements inside the value is one that the Go
  runtime can hold: at most \<open>maxAlloc\<close> bytes at 16 bytes for each element.
\<close>

fun model_value :: "elem \<Rightarrow> bool" where
  "model_value GoNil = True"
| "model_value (GoString s) = ValidString s"
| "model_value (GoInt32 i) = True"
| "model_value (DataInput elements) = list_all model_value elements"
| "model_value Unsupported = False"

fun allocated :: "elem \<Rightarrow> bool" where
  "allocated (DataInput elements) =
     (16 * length elements \<le> maxAlloc \<and> list_all allocated elements)"
| "allocated _ = True"

text \<open>
  The errors of the decoder that report an input that ends too early: the input is
  exhausted where an element starts, a varint has no last byte, the declared length of
  a string exceeds the bytes that remain, or fewer than four bytes remain for an
  \<^verbatim>\<open>int32\<close>.
\<close>

fun TruncatedInput :: "error \<Rightarrow> bool" where
  "TruncatedInput UnexpectedEndOfData = True"
| "TruncatedInput IncompleteVarint = True"
| "TruncatedInput StringLengthExceedsData = True"
| "TruncatedInput InsufficientDataForInt32 = True"
| "TruncatedInput _ = False"

declare encodeVarint_loop.simps [simp del] decodeVarint_loop.simps [simp del]
  decodeElement.simps [simp del] decodeElement_loop.simps [simp del]

lemmas tag_defs = TypeString_def TypeInt32_def TypeDataInput_def TypeNull_def

lemmas buffer_defs = Write_def WriteByte_def

section \<open>Varints\<close>

subsection \<open>The encoder loop stays inside its array\<close>

lemma unat_drop_bit_7: "unat (drop_bit 7 (n :: uint64)) = unat n div 128"
  by (simp add: drop_bit_eq_div unat_div)

lemma div_128_less: "(x::nat) < 2 ^ (7 * Suc k) \<Longrightarrow> x div 128 < 2 ^ (7 * k)"
proof -
  assume "x < 2 ^ (7 * Suc k)"
  moreover have "(2::nat) ^ (7 * Suc k) = 2 ^ (7 * k) * 128" by (simp add: power_add)
  ultimately have "x < 2 ^ (7 * k) * 128" by simp
  then show ?thesis by (rule less_mult_imp_div_less)
qed

lemma encodeVarint_loop_eq:
  "length buf = 10 \<Longrightarrow> i < 10 \<Longrightarrow> unat n < 2 ^ (7 * (10 - i)) \<Longrightarrow>
   encodeVarint_loop n i buf = Returns (take i buf @ varint_bytes n)"
proof (induction n i buf rule: encodeVarint_loop.induct)
  case (1 n i buf)
  show ?case
  proof (cases "n \<ge> 0x80")
    case True
    then have ge: "128 \<le> unat n" by (simp add: word_le_nat_alt)
    have "i \<noteq> 9" using ge "1.prems"(3) by auto
    with "1.prems" have i9: "i + 1 < 10" by simp
    have "(2::nat) ^ (7 * (10 - i)) = 128 * 2 ^ (7 * (10 - (i + 1)))"
    proof -
      have "7 * (10 - i) = 7 + 7 * (10 - (i + 1))" using i9 by simp
      then show ?thesis by (simp add: power_add)
    qed
    with "1.prems"(3) have "unat (drop_bit 7 n) < 2 ^ (7 * (10 - (i + 1)))"
      by (simp add: unat_drop_bit_7 less_mult_imp_div_less mult.commute)
    with "1.IH"[OF True] "1.prems" i9
    have "encodeVarint_loop (drop_bit 7 n) (i + 1) (buf[i := ucast n OR 0x80])
            = Returns (take (i + 1) (buf[i := ucast n OR 0x80]) @ varint_bytes (drop_bit 7 n))"
      by simp
    moreover have "take (i + 1) (buf[i := ucast n OR 0x80]) = take i buf @ [ucast n OR 0x80]"
      using "1.prems" by (simp add: take_Suc_conv_app_nth)
    ultimately show ?thesis
      using True "1.prems"
      by (subst encodeVarint_loop.simps, subst varint_bytes.simps) simp
  next
    case False
    moreover have "take (i + 1) (buf[i := ucast n]) = take i buf @ [ucast n]"
      using "1.prems" by (simp add: take_Suc_conv_app_nth)
    ultimately show ?thesis
      using "1.prems"
      by (subst encodeVarint_loop.simps, subst varint_bytes.simps) simp
  qed
qed

lemma encodeVarint_eq: "encodeVarint n = Returns (varint_bytes n)"
proof -
  have "unat n < 2 ^ 64" using unsigned_less[of n] by simp
  also have "\<dots> < (2::nat) ^ (7 * (10 - 0))" by simp
  finally show ?thesis
    unfolding encodeVarint_def by (subst encodeVarint_loop_eq) simp_all
qed

lemma varint_bytes_length_le:
  "unat n < 2 ^ (7 * k) \<Longrightarrow> 0 < k \<Longrightarrow> length (varint_bytes n) \<le> k"
proof (induction n arbitrary: k rule: varint_bytes.induct)
  case (1 n)
  show ?case
  proof (cases "n \<ge> 0x80")
    case True
    then have ge: "128 \<le> unat n" by (simp add: word_le_nat_alt)
    have "k \<noteq> 1" using ge "1.prems" by auto
    with "1.prems" obtain k' where k: "k = Suc k'" "0 < k'" by (cases k) auto
    with "1.prems" have "unat (drop_bit 7 n) < 2 ^ (7 * k')"
      unfolding unat_drop_bit_7 by (intro div_128_less) simp
    from "1.IH"[OF True this k(2)] show ?thesis
      using True k by (subst varint_bytes.simps) simp
  next
    case False
    then show ?thesis using "1.prems" by (subst varint_bytes.simps) simp
  qed
qed

lemma varint_bytes_length_le_10: "length (varint_bytes n) \<le> 10"
proof -
  have "unat n < 2 ^ 64" using unsigned_less[of n] by simp
  also have "\<dots> < (2::nat) ^ (7 * 10)" by simp
  finally show ?thesis by (rule varint_bytes_length_le) simp
qed

lemma varint_bytes_nonempty: "varint_bytes n \<noteq> []"
  by (subst varint_bytes.simps) simp

subsection \<open>Bytes and bits\<close>

lemma ucast_and_mask_gen:
  "k < 8 \<Longrightarrow> ucast ((ucast (n :: uint64) :: byte) AND mask k) = (take_bit k n :: uint64)"
  by (rule bit_word_eqI) (auto simp: bit_simps)

lemma ucast_or_and_mask_gen:
  "k < 8 \<Longrightarrow> ucast (((ucast (n :: uint64) :: byte) OR 2 ^ k) AND mask k) = (take_bit k n :: uint64)"
  by (rule bit_word_eqI) (auto simp: bit_simps)

lemma mask_7_byte: "(0x7F :: byte) = mask 7"
  by (simp add: mask_eq_exp_minus_1)

lemma low_byte_last: "(n :: uint64) < 0x80 \<Longrightarrow> ucast ((ucast n :: byte) AND 0x7F) = n"
proof -
  assume "n < 0x80"
  then have "n < 2 ^ 7" by simp
  then have "n AND mask 7 = n" by (rule less_mask_eq)
  then have t: "take_bit 7 n = n" by (simp add: take_bit_eq_mask)
  show ?thesis
    unfolding mask_7_byte using ucast_and_mask_gen[of 7 n] t by simp
qed

lemma low_byte_last_less: "(n :: uint64) < 0x80 \<Longrightarrow> (ucast n :: byte) < 0x80"
proof -
  assume "n < 0x80"
  then have "unat n < 128" by (simp add: word_less_nat_alt)
  then have "unat (ucast n :: byte) < 128"
    by (simp add: unsigned_ucast_eq take_bit_eq_mod)
  then show ?thesis by (simp add: word_less_nat_alt)
qed

lemma low_byte_cont:
  "ucast (((ucast (n :: uint64) :: byte) OR 0x80) AND 0x7F) = (take_bit 7 n :: uint64)"
proof -
  have "(0x80 :: byte) = 2 ^ 7" by simp
  then show ?thesis
    unfolding mask_7_byte using ucast_or_and_mask_gen[of 7 n] by simp
qed

lemma low_byte_cont_ge: "\<not> ((ucast (n :: uint64) :: byte) OR 0x80) < 0x80"
proof -
  have "(0x80 :: byte) \<le> ucast n OR 0x80" by (rule le_word_or1)
  then show ?thesis by simp
qed

lemma take_drop_bit_7: "take_bit 7 (n :: uint64) OR push_bit 7 (drop_bit 7 n) = n"
proof (rule bit_word_eqI)
  fix i assume "i < LENGTH(64)"
  then show "bit (take_bit 7 n OR push_bit 7 (drop_bit 7 n)) i = bit n i"
    by (cases "i < 7") (auto simp: bit_simps)
qed

lemma push_bit_split:
  "(acc OR push_bit shift (take_bit 7 n)) OR push_bit (shift + 7) (drop_bit 7 n)
     = acc OR push_bit shift (n :: uint64)"
proof -
  have "push_bit shift (take_bit 7 n) OR push_bit (shift + 7) (drop_bit 7 n)
          = push_bit shift (take_bit 7 n OR push_bit 7 (drop_bit 7 n))"
    by (simp add: push_bit_or push_bit_push_bit add.commute)
  then show ?thesis by (simp add: take_drop_bit_7 or.assoc)
qed

subsection \<open>Decoding the bytes of a varint\<close>

lemma decodeVarint_loop_varint_bytes:
  "length pre + length (varint_bytes m) \<le> 10 \<Longrightarrow>
   decodeVarint_loop (pre @ varint_bytes m @ rest) (length pre) acc shift
     = (acc OR push_bit shift m, length pre + length (varint_bytes m), None)"
proof (induction m arbitrary: pre acc shift rule: varint_bytes.induct)
  case (1 m)
  show ?case
  proof (cases "m \<ge> 0x80")
    case True
    let ?b = "ucast m OR 0x80 :: byte"
    let ?m' = "drop_bit 7 m"
    have vb: "varint_bytes m = ?b # varint_bytes ?m'"
      using True by (subst varint_bytes.simps) simp
    have len: "length (pre @ [?b]) + length (varint_bytes ?m') \<le> 10"
      using "1.prems" vb by simp
    have data: "pre @ varint_bytes m @ rest = (pre @ [?b]) @ varint_bytes ?m' @ rest"
      using vb by simp
    have nth: "(pre @ varint_bytes m @ rest) ! length pre = ?b"
      using vb by simp
    have i9: "\<not> 9 < length pre" using len by simp
    have lt: "length pre < length (pre @ varint_bytes m @ rest)" using vb by simp
    have "decodeVarint_loop (pre @ varint_bytes m @ rest) (length pre) acc shift
            = decodeVarint_loop (pre @ varint_bytes m @ rest) (length pre + 1)
                (acc OR push_bit shift (take_bit 7 m)) (shift + 7)"
      using lt i9 nth low_byte_cont[of m] low_byte_cont_ge[of m]
      by (subst decodeVarint_loop.simps) (simp add: Let_def)
    also have "\<dots> = decodeVarint_loop ((pre @ [?b]) @ varint_bytes ?m' @ rest)
                (length (pre @ [?b])) (acc OR push_bit shift (take_bit 7 m)) (shift + 7)"
      using data by simp
    also have "\<dots> = ((acc OR push_bit shift (take_bit 7 m)) OR push_bit (shift + 7) ?m',
                length (pre @ [?b]) + length (varint_bytes ?m'), None)"
      by (rule "1.IH"[OF True len])
    finally show ?thesis using vb by (simp add: push_bit_split)
  next
    case False
    then have lt: "m < 0x80" by simp
    have vb: "varint_bytes m = [ucast m]"
      using False by (subst varint_bytes.simps) simp
    have i9: "\<not> 9 < length pre" using "1.prems" vb by simp
    show ?thesis
      using i9 vb low_byte_last[OF lt] low_byte_last_less[OF lt]
      by (subst decodeVarint_loop.simps) (simp add: Let_def)
  qed
qed

lemma decodeVarint_varint_bytes:
  "decodeVarint (varint_bytes m @ rest) = (m, length (varint_bytes m), None)"
  using decodeVarint_loop_varint_bytes[of "[]" m rest 0 0] varint_bytes_length_le_10[of m]
  by (simp add: decodeVarint_def)

lemma decodeVarint_loop_prefix:
  "varint_bytes m = p @ q \<Longrightarrow> q \<noteq> [] \<Longrightarrow> length pre + length p \<le> 10 \<Longrightarrow>
   decodeVarint_loop (pre @ p) (length pre) acc shift = (0, 0, Some IncompleteVarint)"
proof (induction m arbitrary: pre p acc shift rule: varint_bytes.induct)
  case (1 m)
  show ?case
  proof (cases p)
    case Nil
    then show ?thesis by (subst decodeVarint_loop.simps) simp
  next
    case (Cons b p')
    show ?thesis
    proof (cases "m \<ge> 0x80")
      case True
      let ?b = "ucast m OR 0x80 :: byte"
      have vb: "varint_bytes m = ?b # varint_bytes (drop_bit 7 m)"
        using True by (subst varint_bytes.simps) simp
      with "1.prems"(1) Cons have b: "b = ?b" and rest: "varint_bytes (drop_bit 7 m) = p' @ q"
        by simp_all
      have len: "length (pre @ [b]) + length p' \<le> 10" using "1.prems"(3) Cons by simp
      have i9: "\<not> 9 < length pre" using len by simp
      have "decodeVarint_loop (pre @ p) (length pre) acc shift
              = decodeVarint_loop ((pre @ [b]) @ p') (length (pre @ [b]))
                  (acc OR push_bit shift (take_bit 7 m)) (shift + 7)"
        using i9 Cons b low_byte_cont[of m] low_byte_cont_ge[of m]
        by (subst decodeVarint_loop.simps) (simp add: Let_def)
      also have "\<dots> = (0, 0, Some IncompleteVarint)"
        by (rule "1.IH"[OF True rest "1.prems"(2) len])
      finally show ?thesis .
    next
      case False
      then have "varint_bytes m = [ucast m]" by (subst varint_bytes.simps) simp
      with "1.prems"(1,2) Cons show ?thesis by simp
    qed
  qed
qed

lemma decodeVarint_prefix:
  "varint_bytes m = p @ q \<Longrightarrow> q \<noteq> [] \<Longrightarrow> decodeVarint p = (0, 0, Some IncompleteVarint)"
proof -
  assume a: "varint_bytes m = p @ q" "q \<noteq> []"
  then have "length p \<le> 10" using varint_bytes_length_le_10[of m] by simp
  with a show ?thesis
    using decodeVarint_loop_prefix[of m p q "[]" 0 0] by (simp add: decodeVarint_def)
qed

text \<open>
  Claim C4. For every \<^verbatim>\<open>uint64\<close> \<open>n\<close>, \<^verbatim>\<open>encodeVarint(n)\<close> returns a byte slice, and
  \<^verbatim>\<open>decodeVarint\<close> of that slice returns \<open>n\<close>, the length of the slice as the number of
  bytes consumed, and no error.
\<close>

theorem varint_roundtrip:
  "\<exists>bs. encodeVarint n = Returns bs \<and> decodeVarint bs = (n, length bs, None)"
  using decodeVarint_varint_bytes[of n "[]"] by (simp add: encodeVarint_eq)

subsection \<open>Size of a varint\<close>

lemma floorlog_div_pow2:
  "0 < x div 2 ^ k \<Longrightarrow> floorlog 2 x = k + floorlog 2 (x div 2 ^ k)"
proof (induction k arbitrary: x)
  case 0
  then show ?case by simp
next
  case (Suc k)
  have d: "x div 2 ^ Suc k = (x div 2) div 2 ^ k" by (simp add: div_mult2_eq)
  with Suc.prems have pos: "0 < (x div 2) div 2 ^ k" by simp
  have "0 < x" using Suc.prems by (cases "x = 0") auto
  then have "floorlog 2 x = floorlog 2 (x div 2) + 1"
    by (subst compute_floorlog) simp
  also have "floorlog 2 (x div 2) = k + floorlog 2 ((x div 2) div 2 ^ k)"
    by (rule Suc.IH[OF pos])
  finally show ?case using d by simp
qed

lemma varint_bytes_length:
  "length (varint_bytes n) = max 1 ((floorlog 2 (unat n) + 6) div 7)"
proof (induction n rule: varint_bytes.induct)
  case (1 n)
  show ?case
  proof (cases "n \<ge> 0x80")
    case True
    then have ge: "128 \<le> unat n" by (simp add: word_le_nat_alt)
    then have pos: "0 < unat n div 2 ^ 7" by simp
    have fl: "floorlog 2 (unat n) = 7 + floorlog 2 (unat (drop_bit 7 n))"
      using floorlog_div_pow2[OF pos] by (simp add: unat_drop_bit_7)
    have "0 < unat (drop_bit 7 n)" using pos by (simp add: unat_drop_bit_7)
    then have "floorlog 2 (unat (drop_bit 7 n)) \<noteq> 0"
      by (simp add: floorlog_eq_zero_iff)
    then have "1 \<le> (floorlog 2 (unat (drop_bit 7 n)) + 6) div 7" by simp
    with "1.IH"[OF True] fl show ?thesis
      using True by (subst varint_bytes.simps) simp
  next
    case False
    then have "unat n < 2 ^ 7" by (simp add: word_le_nat_alt)
    then have "floorlog 2 (unat n) \<le> 7" by (intro floorlog_leI) simp_all
    then have "(floorlog 2 (unat n) + 6) div 7 \<le> 1" by simp
    then show ?thesis using False by (subst varint_bytes.simps) simp
  qed
qed

lemma ucast_byte_eq_0: "(n :: uint64) < 0x80 \<Longrightarrow> ((ucast n :: byte) = 0) = (n = 0)"
proof -
  assume "n < 0x80"
  then have "unat n < 128" by (simp add: word_less_nat_alt)
  then have "unat (ucast n :: byte) = unat n"
    by (simp add: unsigned_ucast_eq take_bit_eq_mod)
  then show ?thesis by (metis unsigned_eq_0_iff)
qed

lemma varint_bytes_last:
  "last (varint_bytes n) < 0x80 \<and> ((last (varint_bytes n) = 0) = (n = 0))"
proof (induction n rule: varint_bytes.induct)
  case (1 n)
  show ?case
  proof (cases "n \<ge> 0x80")
    case True
    then have ge: "128 \<le> unat n" by (simp add: word_le_nat_alt)
    then have "0 < unat (drop_bit 7 n)" by (simp add: unat_drop_bit_7)
    then have nz: "drop_bit 7 n \<noteq> 0" by auto
    have "n \<noteq> 0" using True by auto
    with "1.IH"[OF True] nz show ?thesis
      using True by (subst (1 2) varint_bytes.simps) (simp add: varint_bytes_nonempty)
  next
    case False
    then have lt: "n < 0x80" by simp
    show ?thesis
      using False low_byte_last_less[OF lt] ucast_byte_eq_0[OF lt]
      by (subst (1 2) varint_bytes.simps) simp
  qed
qed

text \<open>
  Claim C7. For every \<^verbatim>\<open>uint64\<close> \<open>n\<close>, \<^verbatim>\<open>encodeVarint(n)\<close> has
  \<open>max 1 \<lceil>bits / 7\<rceil>\<close> bytes, where \<open>bits = floorlog 2 n\<close> is the number of bits
  needed for \<open>n\<close>; this is between 1 and 10 bytes. The last byte has the continuation
  bit clear and is zero only for \<open>n = 0\<close>, which encodes as the single byte 00.
\<close>

theorem varint_size_canonical:
  "(\<exists>bs. encodeVarint n = Returns bs
       \<and> length bs = max 1 ((floorlog 2 (unat n) + 6) div 7)
       \<and> 1 \<le> length bs \<and> length bs \<le> 10
       \<and> last bs < 0x80 \<and> ((last bs = 0) = (n = 0)))
   \<and> encodeVarint 0 = Returns [0x00]"
proof -
  have "1 \<le> length (varint_bytes n)"
    using varint_bytes_nonempty[of n] by (cases "varint_bytes n") simp_all
  moreover have "varint_bytes 0 = [0]" by (subst varint_bytes.simps) simp
  ultimately show ?thesis
    using varint_bytes_length[of n] varint_bytes_length_le_10[of n] varint_bytes_last[of n]
    by (simp add: encodeVarint_eq)
qed

text \<open>The boundary values 127, 128, 16383 and 16384.\<close>

lemma varint_boundary_values:
  "encodeVarint 127 = Returns [0x7F]" "encodeVarint 128 = Returns [0x80, 0x01]"
  "encodeVarint 16383 = Returns [0xFF, 0x7F]" "encodeVarint 16384 = Returns [0x80, 0x80, 0x01]"
  by (simp_all add: encodeVarint_def encodeVarint_loop.simps word_le_nat_alt)

section \<open>The layout of an int32\<close>

lemma Uint32_PutUint32: "Uint32 (PutUint32 v) = v"
proof (rule bit_word_eqI)
  fix n assume n: "n < LENGTH(32)"
  have c: "n < 8 \<or> (8 \<le> n \<and> n < 16) \<or> (16 \<le> n \<and> n < 24) \<or> (24 \<le> n \<and> n < 32)"
    using n by auto
  show "bit (Uint32 (PutUint32 v)) n = bit v n"
    using c n by (auto simp: Uint32_def PutUint32_def bit_simps)
qed

lemma decodeElement_int32:
  "decodeElement (pre @ TypeInt32 # PutUint32 v @ post) (length pre)
     = Returns (GoInt32 v, length pre + 5, None)"
proof -
  have l: "length (PutUint32 v) = 4" by (simp add: PutUint32_def)
  then have "take 4 (PutUint32 v @ post) = PutUint32 v" by simp
  then show ?thesis
    using l by (subst decodeElement.simps) (simp add: Let_def tag_defs Uint32_PutUint32)
qed

text \<open>
  Claim C8. For every \<^verbatim>\<open>int32\<close> \<open>i\<close>, \<^verbatim>\<open>encode(i)\<close> is five bytes: the tag 02 and the
  four bytes of the bit pattern of \<open>i\<close>, least significant first; decoding these five
  bytes returns \<open>i\<close>. The values 0, -1, 2147483647 and -2147483648 are the instances
  written out.
\<close>

theorem int32_layout:
  "encode (GoInt32 i)
     = Returns [0x02, ucast i, ucast (drop_bit 8 i), ucast (drop_bit 16 i), ucast (drop_bit 24 i)]
   \<and> decode [0x02, ucast i, ucast (drop_bit 8 i), ucast (drop_bit 16 i), ucast (drop_bit 24 i)]
     = Returns (GoInt32 i)
   \<and> decodeElement [0x02, ucast i, ucast (drop_bit 8 i), ucast (drop_bit 16 i), ucast (drop_bit 24 i)] 0
     = Returns (GoInt32 i, 5, None)
   \<and> encode (GoInt32 0) = Returns [0x02, 0x00, 0x00, 0x00, 0x00]
   \<and> encode (GoInt32 (word_of_int (- 1))) = Returns [0x02, 0xFF, 0xFF, 0xFF, 0xFF]
   \<and> encode (GoInt32 (word_of_int 2147483647)) = Returns [0x02, 0xFF, 0xFF, 0xFF, 0x7F]
   \<and> encode (GoInt32 (word_of_int (- 2147483648))) = Returns [0x02, 0x00, 0x00, 0x00, 0x80]
   \<and> sint (word_of_int (- 1) :: uint32) = - 1
   \<and> sint (word_of_int 2147483647 :: uint32) = 2147483647
   \<and> sint (word_of_int (- 2147483648) :: uint32) = - 2147483648"
proof -
  have d: "decodeElement ([] @ TypeInt32 # PutUint32 i @ []) (length ([] :: byte list))
            = Returns (GoInt32 i, length ([] :: byte list) + 5, None)"
    by (rule decodeElement_int32)
  have e: "\<And>v. encode (GoInt32 v) = Returns (TypeInt32 # PutUint32 v)"
    by (simp add: encode_def buffer_defs)
  have 1: "PutUint32 0 = [0x00, 0x00, 0x00, 0x00]" by (simp add: PutUint32_def)
  have "(word_of_int (- 1) :: uint32) = 4294967295" by simp
  then have 2: "PutUint32 (word_of_int (- 1)) = [0xFF, 0xFF, 0xFF, 0xFF]"
    by (simp only: PutUint32_def) simp
  have 3: "PutUint32 (word_of_int 2147483647) = [0xFF, 0xFF, 0xFF, 0x7F]"
    by (simp add: PutUint32_def)
  have 4: "PutUint32 (word_of_int (- 2147483648)) = [0x00, 0x00, 0x00, 0x80]"
    by (simp add: PutUint32_def)
  have 5: "sint (word_of_int (- 1) :: uint32) = - 1" by simp
  have 6: "sint (word_of_int 2147483647 :: uint32) = 2147483647" by simp
  have 7: "sint (word_of_int (- 2147483648) :: uint32) = - 2147483648" by simp
  from d have d': "decodeElement (TypeInt32 # PutUint32 i) 0 = Returns (GoInt32 i, 5, None)"
    by simp
  show ?thesis
    unfolding e 1 2 3 4 5 6 7
    using d' by (simp add: decode_def PutUint32_def tag_defs)
qed

section \<open>Pinned encodings\<close>

text \<open>
  Claim C9. \<^verbatim>\<open>encode(NewDataInput())\<close> is the two bytes 03 00, and
  \<^verbatim>\<open>encode(NewDataInput("foo", NewDataInput("bar", int32(42))))\<close> is the 19 bytes
  03 02 01 03 66 6F 6F 03 02 01 03 62 61 72 02 2A 00 00 00.
\<close>

theorem pinned_encodings:
  "encode (DataInput []) = Returns [0x03, 0x00] \<and>
   encode (DataInput [GoString [0x66, 0x6F, 0x6F],
                      DataInput [GoString [0x62, 0x61, 0x72], GoInt32 42]])
     = Returns [0x03, 0x02, 0x01, 0x03, 0x66, 0x6F, 0x6F,
                0x03, 0x02, 0x01, 0x03, 0x62, 0x61, 0x72, 0x02, 0x2A, 0x00, 0x00, 0x00]"
  by (simp add: encode_def encodeVarint_def encodeVarint_loop.simps tag_defs buffer_defs
        PutUint32_def)

section \<open>The encoder on values of the data model\<close>

subsection \<open>The buffer is only extended\<close>

lemma prepend_simps [simp]:
  "prepend buf (Panics p) = Panics p"
  "prepend buf (Returns (bs, e)) = Returns (buf @ bs, e)"
  by (simp_all add: prepend_def)

lemma prepend_prepend: "prepend a (prepend b r) = prepend (a @ b) r"
  by (cases r) (auto simp: prepend_def)

lemma prepend_Nil: "prepend [] r = r"
  by (cases r) (auto simp: prepend_def)

lemma encodeElement_range_prepend:
  "(\<And>x buf. x \<in> set es \<Longrightarrow> encodeElement buf x = prepend buf (encodeElement [] x)) \<Longrightarrow>
   encodeElement_range buf es = prepend buf (encodeElement_range [] es)"
proof (induction es arbitrary: buf)
  case Nil
  show ?case by simp
next
  case (Cons x xs)
  have x: "\<And>buf. encodeElement buf x = prepend buf (encodeElement [] x)"
    by (rule Cons.prems) simp
  have xs: "\<And>buf. encodeElement_range buf xs = prepend buf (encodeElement_range [] xs)"
    by (rule Cons.IH) (rule Cons.prems, simp)
  show ?case
  proof (cases "encodeElement [] x")
    case (Panics p)
    then show ?thesis using x[of buf] by simp
  next
    case (Returns r)
    obtain bs e where r: "r = (bs, e)" by (cases r)
    show ?thesis
    proof (cases e)
      case None
      with Returns r x[of buf] xs[of "buf @ bs"] xs[of bs] show ?thesis
        by (simp add: prepend_prepend)
    next
      case (Some err)
      with Returns r x[of buf] show ?thesis by simp
    qed
  qed
qed

lemma encodeElement_prepend: "encodeElement buf v = prepend buf (encodeElement [] v)"
proof (induction v arbitrary: buf)
  case (DataInput es)
  have "\<And>b. encodeElement_range b es = prepend b (encodeElement_range [] es)"
    using DataInput.IH by (rule encodeElement_range_prepend)
  from this[of "buf @ TypeDataInput # varint_bytes (word_of_nat (length es))"]
       this[of "TypeDataInput # varint_bytes (word_of_nat (length es))"]
  show ?case
    by (simp add: encodeVarint_eq buffer_defs prepend_prepend)
qed (simp_all add: encodeVarint_eq buffer_defs)

lemma encodeElement_range_append:
  "encodeElement_range [] xs = Returns (body, None) \<Longrightarrow>
   encodeElement_range buf (xs @ ys) = encodeElement_range (buf @ body) ys"
proof (induction xs arbitrary: buf body)
  case Nil
  then show ?case by simp
next
  case (Cons x xs)
  from Cons.prems obtain b1 where
    x: "encodeElement [] x = Returns (b1, None)" and r: "encodeElement_range b1 xs = Returns (body, None)"
    by (auto split: exec.splits option.splits)
  from r obtain b2 where
    r0: "encodeElement_range [] xs = Returns (b2, None)" and body: "body = b1 @ b2"
    using encodeElement_range_prepend[of xs b1, OF encodeElement_prepend]
    by (cases "encodeElement_range [] xs") (auto simp: prepend_def)
  have "encodeElement buf x = Returns (buf @ b1, None)"
    using encodeElement_prepend[of buf x] x by simp
  then show ?case
    using Cons.IH[OF r0, of "buf @ b1"] body by simp
qed

text \<open>The encoder never panics: it returns a buffer for every value.\<close>

lemma encodeElement_range_returns:
  "(\<And>x buf. x \<in> set es \<Longrightarrow> \<exists>bs e. encodeElement buf x = Returns (bs, e)) \<Longrightarrow>
   \<exists>bs e. encodeElement_range buf es = Returns (bs, e)"
proof (induction es arbitrary: buf)
  case Nil
  show ?case by simp
next
  case (Cons x xs)
  obtain bs e where x: "encodeElement buf x = Returns (bs, e)"
    using Cons.prems[of x buf] by auto
  have "\<exists>bs' e'. encodeElement_range bs xs = Returns (bs', e')"
    by (rule Cons.IH) (rule Cons.prems, simp)
  with x show ?case by (cases e) auto
qed

lemma encodeElement_returns: "\<exists>bs e. encodeElement buf v = Returns (bs, e)"
proof (induction v arbitrary: buf)
  case (DataInput es)
  have "\<exists>bs e. encodeElement_range b es = Returns (bs, e)" for b
    using DataInput.IH by (rule encodeElement_range_returns)
  then show ?case by (simp add: encodeVarint_eq buffer_defs)
qed (simp_all add: encodeVarint_eq buffer_defs)

lemma encodeElement_range_append_error:
  "encodeElement_range [] xs = Returns (body, Some err) \<Longrightarrow>
   encodeElement_range buf (xs @ ys) = Returns (buf @ body, Some err)"
proof (induction xs arbitrary: buf body)
  case Nil
  then show ?case by simp
next
  case (Cons x xs)
  obtain b1 e1 where x: "encodeElement [] x = Returns (b1, e1)"
    using encodeElement_returns[of "[]" x] by auto
  then have xb: "encodeElement buf x = Returns (buf @ b1, e1)"
    using encodeElement_prepend[of buf x] by simp
  show ?case
  proof (cases e1)
    case (Some e')
    with Cons.prems x xb show ?thesis by simp
  next
    case None
    with Cons.prems x have r: "encodeElement_range b1 xs = Returns (body, Some err)" by simp
    then obtain b2 where
      r0: "encodeElement_range [] xs = Returns (b2, Some err)" and body: "body = b1 @ b2"
      using encodeElement_range_prepend[of xs b1, OF encodeElement_prepend]
      by (cases "encodeElement_range [] xs") (auto simp: prepend_def)
    from Cons.IH[OF r0, of "buf @ b1"] xb None body show ?thesis by simp
  qed
qed

lemma encodeElement_error_kind:
  "encodeElement buf v = Returns (bs, Some err) \<Longrightarrow> err = UnsupportedType"
  "encodeElement_range buf vs = Returns (bs, Some err) \<Longrightarrow> err = UnsupportedType"
proof (induction buf v and buf vs arbitrary: bs err and bs err
       rule: encodeElement_encodeElement_range.induct)
  case (3 buf elements)
  from "3.prems" have "encodeElement_range
      (Write (WriteByte buf TypeDataInput) (varint_bytes (of_nat (length elements)))) elements
        = Returns (bs, Some err)"
    by (simp add: encodeVarint_eq)
  from "3.IH"[OF refl encodeVarint_eq this] show ?case .
next
  case (7 buf subElem rest)
  obtain b1 e1 where x: "encodeElement buf subElem = Returns (b1, e1)"
    using encodeElement_returns[of buf subElem] by auto
  show ?case
  proof (cases e1)
    case (Some e')
    with "7.prems" x have "encodeElement buf subElem = Returns (bs, Some err)" by simp
    then show ?thesis by (rule "7.IH"(1))
  next
    case None
    with "7.prems" x have "encodeElement_range b1 rest = Returns (bs, Some err)" by simp
    from "7.IH"(2)[OF x[unfolded None] refl refl this] show ?thesis .
  qed
qed (simp_all add: encodeVarint_eq)

text \<open>
  Claim C10. \<^verbatim>\<open>encode\<close> discards the error of \<^verbatim>\<open>encodeElement\<close>. For a
  \<^verbatim>\<open>*DataInput\<close> with an element of unsupported type among its children, whatever the
  elements \<open>before\<close> and \<open>after\<close> it are, \<^verbatim>\<open>encodeElement\<close> returns the error
  "unsupported type" and \<^verbatim>\<open>encode\<close> still returns bytes: the tag 03, the varint of the
  full length of the list, and \<open>body\<close>, the bytes that the loop writes for the elements
  of \<open>before\<close> alone, so fewer element encodings than the count says. The loop over
  \<open>before\<close> ends without error or, when an element of \<open>before\<close> contains a value of
  unsupported type itself, with that same error. For a value of unsupported type at top
  level \<^verbatim>\<open>encode\<close> returns the empty string. For every value \<open>v\<close>, of whatever type,
  \<^verbatim>\<open>encode\<close> returns the buffer that \<^verbatim>\<open>encodeElement\<close> leaves, whether or not there
  was an error.
\<close>

theorem unsupported_element_dropped:
  "(\<exists>count body e.
      encodeVarint (of_nat (length (before @ Unsupported # after))) = Returns count
      \<and> encodeElement_range [] before = Returns (body, e)
      \<and> (e = None \<or> e = Some UnsupportedType)
      \<and> encodeElement [] (DataInput (before @ Unsupported # after))
            = Returns (TypeDataInput # count @ body, Some UnsupportedType)
      \<and> encode (DataInput (before @ Unsupported # after)) = Returns (TypeDataInput # count @ body))
   \<and> length before < length (before @ Unsupported # after)
   \<and> encodeElement [] Unsupported = Returns ([], Some UnsupportedType)
   \<and> encode Unsupported = Returns []
   \<and> (\<exists>bs e. encodeElement [] v = Returns (bs, e) \<and> encode v = Returns bs)"
proof -
  have r: "\<exists>bs e. encodeElement [] v = Returns (bs, e) \<and> encode v = Returns bs"
    using encodeElement_returns[of "[]" v] by (auto simp: encode_def)
  let ?vb = "varint_bytes (of_nat (length (before @ Unsupported # after)))"
  obtain body e where b: "encodeElement_range [] before = Returns (body, e)"
    using encodeElement_range_returns[of before "[]"] encodeElement_returns by blast
  have k: "e = None \<or> e = Some UnsupportedType"
    using encodeElement_error_kind(2)[of "[]" before body] b by (cases e) auto
  have "encodeElement_range (TypeDataInput # ?vb) (before @ Unsupported # after)
          = Returns (TypeDataInput # ?vb @ body, Some UnsupportedType)"
  proof (cases e)
    case None
    with b show ?thesis
      using encodeElement_range_append[of before body "TypeDataInput # ?vb" "Unsupported # after"]
      by simp
  next
    case (Some err)
    with k have "e = Some UnsupportedType" by simp
    with b show ?thesis
      using encodeElement_range_append_error[of before body UnsupportedType
              "TypeDataInput # ?vb" "Unsupported # after"]
      by simp
  qed
  then have "encodeElement [] (DataInput (before @ Unsupported # after))
          = Returns (TypeDataInput # ?vb @ body, Some UnsupportedType)"
    by (simp add: encodeVarint_eq buffer_defs)
  with b k r show ?thesis
    by (simp add: encode_def encodeVarint_eq)
qed

theorem unsupported_element_dropped_witness:
  "encode (DataInput [DataInput [Unsupported], Unsupported]) = Returns [0x03, 0x02, 0x03, 0x01]
   \<and> encode (DataInput [GoString [0x66, 0x6F, 0x6F], Unsupported, GoInt32 1])
       = Returns [0x03, 0x03, 0x01, 0x03, 0x66, 0x6F, 0x6F]"
proof -
  have h1: "encodeElement_range [] [DataInput [Unsupported]] = Returns ([0x03, 0x01], Some UnsupportedType)"
    by (simp add: encodeVarint_def encodeVarint_loop.simps tag_defs buffer_defs word_le_nat_alt)
  have c1: "encodeVarint (of_nat (length ([DataInput [Unsupported]] @ Unsupported # []))) = Returns [0x02]"
    by (simp add: encodeVarint_def encodeVarint_loop.simps)
  have h2: "encodeElement_range [] [GoString [0x66, 0x6F, 0x6F]]
             = Returns ([0x01, 0x03, 0x66, 0x6F, 0x6F], None)"
    by (simp add: encodeVarint_def encodeVarint_loop.simps tag_defs buffer_defs)
  have c2: "encodeVarint (of_nat (length ([GoString [0x66, 0x6F, 0x6F]] @ Unsupported # [GoInt32 1])))
             = Returns [0x03]"
    by (simp add: encodeVarint_def encodeVarint_loop.simps)
  from unsupported_element_dropped[of "[DataInput [Unsupported]]" "[]"]
    unsupported_element_dropped[of "[GoString [0x66, 0x6F, 0x6F]]" "[GoInt32 1]"]
    h1 c1 h2 c2 show ?thesis
    by (simp add: tag_defs)
qed

subsection \<open>The bytes of a value\<close>

lemma sint_of_nat_64: "n < 2 ^ 63 \<Longrightarrow> sint (of_nat n :: uint64) = int n"
proof -
  assume "n < 2 ^ 63"
  then have "int n < 2 ^ 63" by (metis of_nat_less_iff of_nat_numeral of_nat_power)
  then have "signed_take_bit 63 (int n) = int n"
    by (intro signed_take_bit_int_eq_self) simp_all
  then show ?thesis by (simp add: signed_of_nat)
qed

lemma unat_of_nat_64: "n < 2 ^ 64 \<Longrightarrow> unat (of_nat n :: uint64) = n"
  by (simp add: unat_of_nat)

lemma encodeElement_range_wire:
  "(\<And>x. x \<in> set es \<Longrightarrow> encodeElement [] x = Returns (wire x, None)) \<Longrightarrow>
   encodeElement_range buf es = Returns (buf @ concat (map wire es), None)"
proof (induction es arbitrary: buf)
  case Nil
  show ?case by simp
next
  case (Cons x xs)
  have "encodeElement [] x = Returns (wire x, None)" by (rule Cons.prems) simp
  then have x: "encodeElement buf x = Returns (buf @ wire x, None)"
    using encodeElement_prepend[of buf x] by simp
  have "encodeElement_range (buf @ wire x) xs = Returns ((buf @ wire x) @ concat (map wire xs), None)"
    by (rule Cons.IH) (rule Cons.prems, simp)
  with x show ?case by simp
qed

lemma encodeElement_model: "model_value v \<Longrightarrow> encodeElement [] v = Returns (wire v, None)"
proof (induction v)
  case (DataInput es)
  have "\<And>x. x \<in> set es \<Longrightarrow> encodeElement [] x = Returns (wire x, None)"
    using DataInput by (simp add: list_all_iff)
  from encodeElement_range_wire[OF this] show ?case
    by (simp add: wire_def encode_def encodeVarint_eq buffer_defs)
qed (simp_all add: wire_def encode_def encodeVarint_eq buffer_defs)

lemma encode_model: "model_value v \<Longrightarrow> encode v = Returns (wire v)"
  by (simp add: encode_def encodeElement_model)

lemma wire_GoNil: "wire GoNil = [TypeNull]"
  by (simp add: wire_def encode_def buffer_defs)

lemma wire_GoInt32: "wire (GoInt32 i) = TypeInt32 # PutUint32 i"
  by (simp add: wire_def encode_def buffer_defs)

lemma wire_GoString: "wire (GoString s) = TypeString # varint_bytes (of_nat (length s)) @ s"
  by (simp add: wire_def encode_def buffer_defs encodeVarint_eq)

lemma wire_DataInput:
  "list_all model_value es \<Longrightarrow>
   wire (DataInput es) = TypeDataInput # varint_bytes (of_nat (length es)) @ concat (map wire es)"
proof -
  assume "list_all model_value es"
  then have "\<And>x. x \<in> set es \<Longrightarrow> encodeElement [] x = Returns (wire x, None)"
    by (simp add: list_all_iff encodeElement_model)
  from encodeElement_range_wire[OF this] show ?thesis
    by (simp add: wire_def encode_def buffer_defs encodeVarint_eq)
qed

lemma wire_nonempty: "model_value v \<Longrightarrow> wire v \<noteq> []"
  by (cases v) (simp_all add: wire_GoNil wire_GoInt32 wire_GoString wire_DataInput)

lemma length_concat_wire_ge:
  "list_all model_value es \<Longrightarrow> length es \<le> length (concat (map wire es))"
proof (induction es)
  case Nil
  show ?case by simp
next
  case (Cons x xs)
  then have "wire x \<noteq> []" by (simp add: wire_nonempty)
  then have "1 \<le> length (wire x)" by (cases "wire x") simp_all
  with Cons show ?case by simp
qed

section \<open>Decoding an encoded value\<close>

text \<open>The UTF-8 test on well-formed and ill-formed sequences.\<close>

lemma ValidString_examples: "ValidString [0xC3, 0xA9]" "\<not> ValidString [0x80]" "\<not> ValidString [0xED, 0xA0, 0x80]"
  "\<not> ValidString [0xF4, 0x90, 0x80, 0x80]" "\<not> ValidString [0xC0, 0x80]" "\<not> ValidString [0xE0, 0x80, 0x80]"
  "\<not> ValidString [0xC3]" "ValidString [0xF0, 0x9F, 0x9A, 0x80]" "ValidString [0xE4, 0xBD, 0xA0]"
  "\<not> ValidString [0xF5, 0x80, 0x80, 0x80]" "\<not> ValidString [0xF0, 0x8F, 0x80, 0x80]"
  by (simp_all add: inRange_def locb_def hicb_def)

lemma decodeElement_loop_wire:
  assumes elems: "\<And>x pre post. x \<in> set es \<Longrightarrow> length (pre @ wire x @ post) < 2 ^ 63 \<Longrightarrow>
            decodeElement (pre @ wire x @ post) (length pre)
              = Returns (x, length pre + length (wire x), None)"
    and len: "length (pre @ concat (map wire es) @ post) < 2 ^ 63"
    and count: "sint count = int (i + length es)"
  shows "decodeElement_loop (pre @ concat (map wire es) @ post) count i (length pre) acc
           = Returns (DataInput (acc @ es), length pre + length (concat (map wire es)), None)"
  using assms
proof (induction es arbitrary: pre i acc)
  case Nil
  then show ?case by (subst decodeElement_loop.simps) simp
next
  case (Cons x xs)
  let ?data = "pre @ concat (map wire (x # xs)) @ post"
  have data: "?data = pre @ wire x @ (concat (map wire xs) @ post)" by simp
  have "length (pre @ wire x @ (concat (map wire xs) @ post)) < 2 ^ 63"
    using Cons.prems(2) by simp
  then have x: "decodeElement ?data (length pre) = Returns (x, length pre + length (wire x), None)"
    unfolding data by (intro Cons.prems(1)) simp_all
  have data': "?data = (pre @ wire x) @ concat (map wire xs) @ post" by simp
  have "decodeElement_loop ((pre @ wire x) @ concat (map wire xs) @ post) count (i + 1)
          (length (pre @ wire x)) (acc @ [x])
        = Returns (DataInput ((acc @ [x]) @ xs),
            length (pre @ wire x) + length (concat (map wire xs)), None)"
  proof (rule Cons.IH)
    show "length ((pre @ wire x) @ concat (map wire xs) @ post) < 2 ^ 63"
      using Cons.prems(2) by simp
    show "sint count = int (i + 1 + length xs)" using Cons.prems(3) by simp
  next
    fix y pre' post'
    assume "y \<in> set xs" "length (pre' @ wire y @ post') < 2 ^ 63"
    then show "decodeElement (pre' @ wire y @ post') (length pre')
                 = Returns (y, length pre' + length (wire y), None)"
      by (intro Cons.prems(1)) simp_all
  qed
  then have rest: "decodeElement_loop ?data count (i + 1) (length pre + length (wire x)) (acc @ [x])
        = Returns (DataInput (acc @ x # xs),
            length pre + length (concat (map wire (x # xs))), None)"
    unfolding data' by (simp add: add.assoc)
  have "int i < sint count" using Cons.prems(3) by simp
  then show ?case
    by (subst decodeElement_loop.simps) (simp only: x rest if_True exec.case prod.case option.case)
qed

lemma tag_at: "(pre @ t # rest) ! length pre = t"
  by simp

lemma drop_tag: "drop (length pre + 1) (pre @ t # rest) = rest"
  by simp

lemma decodeElement_wire:
  "model_value v \<Longrightarrow> allocated v \<Longrightarrow> length (pre @ wire v @ post) < 2 ^ 63 \<Longrightarrow>
   decodeElement (pre @ wire v @ post) (length pre)
     = Returns (v, length pre + length (wire v), None)"
proof (induction v arbitrary: pre post)
  case GoNil
  show ?case
    by (subst decodeElement.simps) (simp add: wire_GoNil Let_def tag_defs)
next
  case (GoString s)
  let ?vb = "varint_bytes (of_nat (length s))"
  let ?data = "pre @ wire (GoString s) @ post"
  let ?off2 = "length pre + 1 + length ?vb"
  have data: "?data = pre @ TypeString # (?vb @ s @ post)" by (simp add: wire_GoString)
  have small: "?off2 + length s < 2 ^ 63" using GoString.prems(3) by (simp add: wire_GoString)
  then have "length s < 2 ^ 64" by simp
  then have dv: "decodeVarint (?vb @ s @ post) = (of_nat (length s), length ?vb, None)"
    by (simp add: decodeVarint_varint_bytes)
  have e: "sint (of_nat ?off2 + of_nat (length s) :: uint64) = int (?off2 + length s)"
  proof -
    have "(of_nat ?off2 + of_nat (length s) :: uint64) = of_nat (?off2 + length s)"
      by (simp only: of_nat_add)
    then show ?thesis by (simp only: sint_of_nat_64[OF small])
  qed
  have str: "take (nat (int (?off2 + length s)) - ?off2) (drop ?off2 ?data) = s"
    by (simp add: wire_GoString)
  have le: "\<not> int (length ?data) < int (?off2 + length s)" by (simp add: wire_GoString)
  have ge: "\<not> int (?off2 + length s) < int ?off2" by simp
  have valid: "ValidString s" using GoString.prems(1) by simp
  have lt: "\<not> length ?data \<le> length pre" by (simp add: wire_GoString)
  have tag: "?data ! length pre = TypeString" unfolding data by (rule tag_at)
  have dr: "drop (length pre + 1) ?data = ?vb @ s @ post" unfolding data by (rule drop_tag)
  show ?case
    apply (subst decodeElement.simps)
    apply (simp only: lt if_False Let_def tag if_True dr dv prod.case option.case e le ge str valid
             not_True_eq_False not_False_eq_True)
    apply (simp add: wire_GoString)
    done
next
  case (GoInt32 i)
  show ?case
    using decodeElement_int32[of pre i post] by (simp add: wire_GoInt32 PutUint32_def)
next
  case (DataInput es)
  let ?vb = "varint_bytes (of_nat (length es))"
  let ?body = "concat (map wire es)"
  let ?data = "pre @ wire (DataInput es) @ post"
  have mv: "list_all model_value es" using DataInput.prems(1) by simp
  have w: "wire (DataInput es) = TypeDataInput # ?vb @ ?body" by (rule wire_DataInput[OF mv])
  have data: "?data = pre @ TypeDataInput # (?vb @ ?body @ post)" by (simp add: w)
  have data2: "?data = (pre @ TypeDataInput # ?vb) @ ?body @ post" by (simp add: w)
  have alloc: "16 * length es \<le> maxAlloc" using DataInput.prems(2) by simp
  then have small: "length es < 2 ^ 63" by (simp add: maxAlloc_def)
  then have u: "unat (of_nat (length es) :: uint64) = length es"
    by (intro unat_of_nat_64) simp
  have ok: "makeslice_ok (of_nat (length es))" using alloc by (simp add: makeslice_ok_def u)
  have dv: "decodeVarint (?vb @ ?body @ post) = (of_nat (length es), length ?vb, None)"
    by (simp add: decodeVarint_varint_bytes)
  have lt: "\<not> length ?data \<le> length pre" by (simp add: w)
  have tag: "?data ! length pre = TypeDataInput" unfolding data by (rule tag_at)
  have dr: "drop (length pre + 1) ?data = ?vb @ ?body @ post" unfolding data by (rule drop_tag)
  have loop: "decodeElement_loop ((pre @ TypeDataInput # ?vb) @ ?body @ post) (of_nat (length es)) 0
                (length (pre @ TypeDataInput # ?vb)) []
              = Returns (DataInput ([] @ es), length (pre @ TypeDataInput # ?vb) + length ?body, None)"
  proof (rule decodeElement_loop_wire)
    show "length ((pre @ TypeDataInput # ?vb) @ ?body @ post) < 2 ^ 63"
      using DataInput.prems(3) by (simp add: w)
    show "sint (of_nat (length es) :: uint64) = int (0 + length es)"
      using sint_of_nat_64[OF small] by simp
  next
    fix x pre' post'
    assume x: "x \<in> set es" and l: "length (pre' @ wire x @ post') < 2 ^ 63"
    have "model_value x" using mv x by (simp add: list_all_iff)
    moreover have "allocated x" using DataInput.prems(2) x by (simp add: list_all_iff)
    ultimately show "decodeElement (pre' @ wire x @ post') (length pre')
                       = Returns (x, length pre' + length (wire x), None)"
      using l by (intro DataInput.IH[OF x])
  qed
  then have loop': "decodeElement_loop ?data (of_nat (length es)) 0 (length pre + 1 + length ?vb) []
              = Returns (DataInput es, length pre + length (wire (DataInput es)), None)"
    unfolding data2[symmetric] by (simp add: w)
  have tn: "TypeDataInput \<noteq> TypeString" "TypeDataInput \<noteq> TypeInt32" by (simp_all add: tag_defs)
  show ?case
    apply (subst decodeElement.simps)
    apply (simp only: lt if_False Let_def tag tn if_True dr dv prod.case option.case ok
             not_True_eq_False not_False_eq_True loop')
    apply simp
    done
next
  case Unsupported
  then show ?case by simp
qed

lemma compareDataInput_refl: "model_value v \<Longrightarrow> compareDataInput v v"
proof (induction v)
  case (DataInput es)
  then have "\<forall>x \<in> set es. compareDataInput x x" by (simp add: list_all_iff)
  then show ?case by (simp add: list_all2_same)
qed simp_all

text \<open>
  Claim C1. For every value \<open>v\<close> of the data model, \<^verbatim>\<open>encode(v)\<close> returns a string
  \<open>bs\<close>, and decoding \<open>bs\<close> succeeds: \<^verbatim>\<open>decodeElement\<close> returns \<open>v\<close> without error, having
  consumed all of \<open>bs\<close>, \<^verbatim>\<open>decode\<close> returns \<open>v\<close>, and \<^verbatim>\<open>compareDataInput\<close> of the
  original and the result is true. The value and the string are ones a Go process can
  hold: \<open>allocated v\<close>, and the length of \<open>bs\<close> is an \<^verbatim>\<open>int\<close>.
\<close>

theorem roundtrip:
  assumes "model_value v" and "allocated v"
  shows "\<exists>bs. encode v = Returns bs \<and>
           (length bs < 2 ^ 63 \<longrightarrow>
              decodeElement bs 0 = Returns (v, length bs, None) \<and>
              decode bs = Returns v \<and> compareDataInput v v)"
proof -
  have "decodeElement (wire v) 0 = Returns (v, length (wire v), None)"
    if "length (wire v) < 2 ^ 63"
    using decodeElement_wire[OF assms, of "[]" "[]"] that by simp
  then show ?thesis
    using assms by (simp add: encode_model decode_def compareDataInput_refl)
qed

theorem roundtrip_witness:
  "model_value (DataInput [GoString [0x66, 0x6F, 0x6F], GoNil, DataInput [GoString [0x62, 0x61, 0x72], GoInt32 42]])
   \<and> allocated (DataInput [GoString [0x66, 0x6F, 0x6F], GoNil, DataInput [GoString [0x62, 0x61, 0x72], GoInt32 42]])
   \<and> encode (DataInput [GoString [0x66, 0x6F, 0x6F], GoNil, DataInput [GoString [0x62, 0x61, 0x72], GoInt32 42]])
       = Returns [0x03, 0x03, 0x01, 0x03, 0x66, 0x6F, 0x6F, 0x00,
                  0x03, 0x02, 0x01, 0x03, 0x62, 0x61, 0x72, 0x02, 0x2A, 0x00, 0x00, 0x00]
   \<and> decode [0x03, 0x03, 0x01, 0x03, 0x66, 0x6F, 0x6F, 0x00,
              0x03, 0x02, 0x01, 0x03, 0x62, 0x61, 0x72, 0x02, 0x2A, 0x00, 0x00, 0x00]
       = Returns (DataInput [GoString [0x66, 0x6F, 0x6F], GoNil, DataInput [GoString [0x62, 0x61, 0x72], GoInt32 42]])"
proof -
  let ?v = "DataInput [GoString [0x66, 0x6F, 0x6F], GoNil, DataInput [GoString [0x62, 0x61, 0x72], GoInt32 42]]"
  have m: "model_value ?v" by simp
  have a: "allocated ?v" by (simp add: maxAlloc_def)
  have e: "encode ?v = Returns [0x03, 0x03, 0x01, 0x03, 0x66, 0x6F, 0x6F, 0x00,
                  0x03, 0x02, 0x01, 0x03, 0x62, 0x61, 0x72, 0x02, 0x2A, 0x00, 0x00, 0x00]"
    by (simp add: encode_def encodeVarint_def encodeVarint_loop.simps tag_defs buffer_defs
          PutUint32_def)
  from roundtrip[OF m a] e m a show ?thesis by simp
qed

text \<open>
  Claim C6. For every value \<open>v\<close> of the data model and every byte sequence \<open>t\<close>, decoding
  \<^verbatim>\<open>encode(v)\<close> followed by \<open>t\<close> succeeds and returns \<open>v\<close>; \<^verbatim>\<open>decodeElement\<close> stops
  after the bytes of \<open>v\<close>, and the trailing bytes are not an error.
\<close>

theorem trailing_bytes:
  assumes "model_value v" and "allocated v"
  shows "\<exists>bs. encode v = Returns bs \<and>
           (length (bs @ t) < 2 ^ 63 \<longrightarrow>
              decodeElement (bs @ t) 0 = Returns (v, length bs, None) \<and>
              decode (bs @ t) = Returns v \<and> compareDataInput v v)"
proof -
  have "decodeElement (wire v @ t) 0 = Returns (v, length (wire v), None)"
    if "length (wire v @ t) < 2 ^ 63"
    using decodeElement_wire[OF assms, of "[]" t] that by simp
  then show ?thesis
    using assms by (simp add: encode_model decode_def compareDataInput_refl)
qed

theorem trailing_bytes_witness:
  "model_value (DataInput [GoString [0x66, 0x6F, 0x6F], GoInt32 42])
   \<and> allocated (DataInput [GoString [0x66, 0x6F, 0x6F], GoInt32 42])
   \<and> encode (DataInput [GoString [0x66, 0x6F, 0x6F], GoInt32 42])
       = Returns [0x03, 0x02, 0x01, 0x03, 0x66, 0x6F, 0x6F, 0x02, 0x2A, 0x00, 0x00, 0x00]
   \<and> decode ([0x03, 0x02, 0x01, 0x03, 0x66, 0x6F, 0x6F, 0x02, 0x2A, 0x00, 0x00, 0x00] @ [0xFF, 0x7F, 0x01])
       = Returns (DataInput [GoString [0x66, 0x6F, 0x6F], GoInt32 42])"
proof -
  let ?v = "DataInput [GoString [0x66, 0x6F, 0x6F], GoInt32 42]"
  have m: "model_value ?v" by simp
  have a: "allocated ?v" by (simp add: maxAlloc_def)
  have e: "encode ?v = Returns [0x03, 0x02, 0x01, 0x03, 0x66, 0x6F, 0x6F, 0x02, 0x2A, 0x00, 0x00, 0x00]"
    by (simp add: encode_def encodeVarint_def encodeVarint_loop.simps tag_defs buffer_defs
          PutUint32_def)
  from trailing_bytes[OF m a, of "[0xFF, 0x7F, 0x01]"] e m a show ?thesis by simp
qed

section \<open>Truncated input\<close>

lemma append_cut:
  "p @ q = a @ b \<Longrightarrow> (\<exists>u. a = p @ u \<and> u \<noteq> []) \<or> (\<exists>u. p = a @ u \<and> b = u @ q)"
proof -
  assume "p @ q = a @ b"
  then obtain us where "(p = a @ us \<and> us @ q = b) \<or> (p @ us = a \<and> q = us @ b)"
    unfolding append_eq_append_conv2 by blast
  then show ?thesis by (cases "us = []") auto
qed

lemma decodeElement_loop_truncated:
  assumes mv: "list_all model_value es" and al: "list_all allocated es"
    and tr: "\<And>x pre p q. x \<in> set es \<Longrightarrow> wire x = p @ q \<Longrightarrow> q \<noteq> [] \<Longrightarrow>
            length (pre @ wire x) < 2 ^ 63 \<Longrightarrow>
            \<exists>e. decodeElement (pre @ p) (length pre) = Returns (GoNil, 0, Some e) \<and> TruncatedInput e"
    and cut: "concat (map wire es) = r @ q" "q \<noteq> []"
    and len: "length (pre @ concat (map wire es)) < 2 ^ 63"
    and count: "sint count = int (i + length es)"
  shows "\<exists>e. decodeElement_loop (pre @ r) count i (length pre) acc = Returns (GoNil, 0, Some e)
             \<and> TruncatedInput e"
  using assms
proof (induction es arbitrary: pre r i acc)
  case Nil
  then show ?case by simp
next
  case (Cons x xs)
  have i: "int i < sint count" using Cons.prems(7) by simp
  have mx: "model_value x" and ax: "allocated x" using Cons.prems(1,2) by simp_all
  from Cons.prems(4) have "r @ q = wire x @ concat (map wire xs)" by simp
  from append_cut[OF this] consider
      (inside) us where "wire x = r @ us" "us \<noteq> []"
    | (after) us where "r = wire x @ us" "concat (map wire xs) = us @ q"
    by blast
  then show ?case
  proof cases
    case inside
    have "length (pre @ wire x) < 2 ^ 63" using Cons.prems(6) by simp
    with Cons.prems(3)[of x r us pre] inside obtain e where
      e: "decodeElement (pre @ r) (length pre) = Returns (GoNil, 0, Some e)" "TruncatedInput e"
      by auto
    show ?thesis
      using i e by (subst decodeElement_loop.simps) simp
  next
    case after
    have l1: "length (pre @ wire x @ us) < 2 ^ 63"
      using Cons.prems(6) after(2) by simp
    have x: "decodeElement (pre @ wire x @ us) (length pre)
               = Returns (x, length pre + length (wire x), None)"
      by (rule decodeElement_wire[OF mx ax l1])
    have "\<exists>e. decodeElement_loop ((pre @ wire x) @ us) count (i + 1) (length (pre @ wire x)) (acc @ [x])
                 = Returns (GoNil, 0, Some e) \<and> TruncatedInput e"
    proof (rule Cons.IH)
      show "list_all model_value xs" "list_all allocated xs" using Cons.prems(1,2) by simp_all
      show "concat (map wire xs) = us @ q" by (rule after(2))
      show "q \<noteq> []" by (rule Cons.prems(5))
      show "length ((pre @ wire x) @ concat (map wire xs)) < 2 ^ 63" using Cons.prems(6) by simp
      show "sint count = int (i + 1 + length xs)" using Cons.prems(7) by simp
    next
      fix y pre' p' q'
      assume a: "y \<in> set xs" "wire y = p' @ q'" "q' \<noteq> []" "length (pre' @ wire y) < 2 ^ 63"
      show "\<exists>e. decodeElement (pre' @ p') (length pre') = Returns (GoNil, 0, Some e)
                    \<and> TruncatedInput e"
        by (rule Cons.prems(3)[OF _ a(2) a(3) a(4)]) (simp add: a(1))
    qed
    then obtain e where
      e: "decodeElement_loop (pre @ wire x @ us) count (i + 1) (length pre + length (wire x)) (acc @ [x])
            = Returns (GoNil, 0, Some e)" "TruncatedInput e"
      by auto
    show ?thesis
      unfolding after(1)
      using i x e by (subst decodeElement_loop.simps) simp
  qed
qed

lemma decodeElement_truncated:
  "model_value v \<Longrightarrow> allocated v \<Longrightarrow> wire v = p @ q \<Longrightarrow> q \<noteq> [] \<Longrightarrow>
   length (pre @ wire v) < 2 ^ 63 \<Longrightarrow>
   \<exists>e. decodeElement (pre @ p) (length pre) = Returns (GoNil, 0, Some e) \<and> TruncatedInput e"
proof (induction v arbitrary: pre p q)
  case GoNil
  from GoNil.prems(3) have "[TypeNull] = p @ q" by (simp only: wire_GoNil)
  with GoNil.prems(4) have "p = []" by (cases p) auto
  then show ?case by (subst decodeElement.simps) simp
next
  case (GoString s)
  let ?vb = "varint_bytes (of_nat (length s))"
  show ?case
  proof (cases p)
    case Nil
    then show ?thesis by (subst decodeElement.simps) simp
  next
    case (Cons t p')
    with GoString.prems(3) have t: "t = TypeString" and cut: "p' @ q = ?vb @ s"
      by (simp_all add: wire_GoString)
    have lt: "\<not> length (pre @ p) \<le> length pre" using Cons by simp
    have tag: "(pre @ p) ! length pre = TypeString" unfolding Cons t by (rule tag_at)
    have dr: "drop (length pre + 1) (pre @ p) = p'" unfolding Cons by (rule drop_tag)
    from append_cut[OF cut] consider
        (varint) us where "?vb = p' @ us" "us \<noteq> []"
      | (payload) us where "p' = ?vb @ us" "s = us @ q"
      by blast
    then show ?thesis
    proof cases
      case varint
      have dv: "decodeVarint p' = (0, 0, Some IncompleteVarint)"
        by (rule decodeVarint_prefix[OF varint])
      show ?thesis
        apply (subst decodeElement.simps)
        apply (simp only: lt if_False Let_def tag if_True dr dv prod.case option.case)
        apply simp
        done
    next
      case payload
      let ?off2 = "length pre + 1 + length ?vb"
      have small: "?off2 + length s < 2 ^ 63"
        using GoString.prems(5) by (simp add: wire_GoString)
      have dv: "decodeVarint p' = (of_nat (length s), length ?vb, None)"
        unfolding payload(1) by (rule decodeVarint_varint_bytes)
      have e: "sint (of_nat ?off2 + of_nat (length s) :: uint64) = int (?off2 + length s)"
      proof -
        have "(of_nat ?off2 + of_nat (length s) :: uint64) = of_nat (?off2 + length s)"
          by (simp only: of_nat_add)
        then show ?thesis by (simp only: sint_of_nat_64[OF small])
      qed
      have "length (pre @ p) = ?off2 + length us" using Cons payload(1) by simp
      moreover have "length us < length s" using payload(2) GoString.prems(4) by simp
      ultimately have gt: "int (length (pre @ p)) < int (?off2 + length s)" by simp
      show ?thesis
        apply (subst decodeElement.simps)
        apply (simp only: lt if_False Let_def tag if_True dr dv prod.case option.case e gt)
        apply simp
        done
    qed
  qed
next
  case (GoInt32 i)
  show ?case
  proof (cases p)
    case Nil
    then show ?thesis by (subst decodeElement.simps) simp
  next
    case (Cons t p')
    with GoInt32.prems(3) have t: "t = TypeInt32" and cut: "p' @ q = PutUint32 i"
      by (simp_all add: wire_GoInt32)
    have "length (p' @ q) = 4" unfolding cut by (simp add: PutUint32_def)
    then have "length p' < 4" using GoInt32.prems(4) by (cases q) simp_all
    then show ?thesis
      unfolding Cons t
      by (subst decodeElement.simps) (simp add: Let_def tag_defs)
  qed
next
  case (DataInput es)
  let ?vb = "varint_bytes (of_nat (length es))"
  let ?body = "concat (map wire es)"
  have mv: "list_all model_value es" using DataInput.prems(1) by simp
  have al: "list_all allocated es" using DataInput.prems(2) by simp
  have w: "wire (DataInput es) = TypeDataInput # ?vb @ ?body" by (rule wire_DataInput[OF mv])
  show ?case
  proof (cases p)
    case Nil
    then show ?thesis by (subst decodeElement.simps) simp
  next
    case (Cons t p')
    with DataInput.prems(3) have t: "t = TypeDataInput" and cut: "p' @ q = ?vb @ ?body"
      by (simp_all add: w)
    have lt: "\<not> length (pre @ p) \<le> length pre" using Cons by simp
    have tag: "(pre @ p) ! length pre = TypeDataInput" unfolding Cons t by (rule tag_at)
    have dr: "drop (length pre + 1) (pre @ p) = p'" unfolding Cons by (rule drop_tag)
    have tn: "TypeDataInput \<noteq> TypeString" "TypeDataInput \<noteq> TypeInt32" by (simp_all add: tag_defs)
    from append_cut[OF cut] consider
        (varint) us where "?vb = p' @ us" "us \<noteq> []"
      | (elements) us where "p' = ?vb @ us" "?body = us @ q"
      by blast
    then show ?thesis
    proof cases
      case varint
      have dv: "decodeVarint p' = (0, 0, Some IncompleteVarint)"
        by (rule decodeVarint_prefix[OF varint])
      show ?thesis
        apply (subst decodeElement.simps)
        apply (simp only: lt if_False Let_def tag tn if_True dr dv prod.case option.case)
        apply simp
        done
    next
      case elements
      have alloc: "16 * length es \<le> maxAlloc" using DataInput.prems(2) by simp
      then have small: "length es < 2 ^ 63" by (simp add: maxAlloc_def)
      then have u: "unat (of_nat (length es) :: uint64) = length es"
        by (intro unat_of_nat_64) simp
      have ok: "makeslice_ok (of_nat (length es))" using alloc by (simp add: makeslice_ok_def u)
      have dv: "decodeVarint p' = (of_nat (length es), length ?vb, None)"
        unfolding elements(1) by (rule decodeVarint_varint_bytes)
      have data: "pre @ p = (pre @ TypeDataInput # ?vb) @ us"
        using Cons t elements(1) by simp
      have "\<exists>e. decodeElement_loop ((pre @ TypeDataInput # ?vb) @ us) (of_nat (length es)) 0
                   (length (pre @ TypeDataInput # ?vb)) []
                 = Returns (GoNil, 0, Some e) \<and> TruncatedInput e"
      proof (rule decodeElement_loop_truncated[OF mv al])
        show "?body = us @ q" by (rule elements(2))
        show "q \<noteq> []" by (rule DataInput.prems(4))
        show "length ((pre @ TypeDataInput # ?vb) @ ?body) < 2 ^ 63"
          using DataInput.prems(5) by (simp add: w)
        show "sint (of_nat (length es) :: uint64) = int (0 + length es)"
          using sint_of_nat_64[OF small] by simp
      next
        fix x pre' p'' q''
        assume x: "x \<in> set es" and c: "wire x = p'' @ q''" "q'' \<noteq> []"
          and l: "length (pre' @ wire x) < 2 ^ 63"
        have "model_value x" using mv x by (simp add: list_all_iff)
        moreover have "allocated x" using al x by (simp add: list_all_iff)
        ultimately show "\<exists>e. decodeElement (pre' @ p'') (length pre') = Returns (GoNil, 0, Some e)
                            \<and> TruncatedInput e"
          using c l by (rule DataInput.IH[OF x])
      qed
      then obtain e where
        e: "decodeElement_loop (pre @ p) (of_nat (length es)) 0 (length pre + 1 + length ?vb) []
              = Returns (GoNil, 0, Some e)" "TruncatedInput e"
        unfolding data[symmetric] by auto
      show ?thesis
        apply (subst decodeElement.simps)
        apply (simp only: lt if_False Let_def tag tn if_True dr dv prod.case option.case ok
                 not_True_eq_False not_False_eq_True e(1))
        using e(2) apply simp
        done
    qed
  qed
next
  case Unsupported
  then show ?case by simp
qed

text \<open>
  Claim C5. For every value \<open>v\<close> of the data model and every proper prefix \<open>p\<close> of
  \<^verbatim>\<open>encode(v)\<close>, \<^verbatim>\<open>decodeElement\<close> on \<open>p\<close> returns \<^verbatim>\<open>nil, 0, err\<close> where \<open>err\<close> is one of
  the errors of an input that ends too early, and no other error. The statement needs
  neither \<open>p\<close> to be non-empty nor \<open>v\<close> to differ from \<^verbatim>\<open>nil\<close>: the empty input fails
  with "unexpected end of data", and the one byte of \<^verbatim>\<open>nil\<close> has no other proper prefix.
\<close>

theorem truncation_detected:
  assumes "model_value v" and "allocated v"
    and "encode v = Returns (p @ q)" and "q \<noteq> []" and "length (p @ q) < 2 ^ 63"
  shows "\<exists>e. decodeElement p 0 = Returns (GoNil, 0, Some e) \<and> TruncatedInput e"
proof -
  have w: "wire v = p @ q" using assms(1,3) by (simp add: encode_model)
  have "length ([] @ wire v) < 2 ^ 63" using assms(5) w by simp
  from decodeElement_truncated[OF assms(1,2) w assms(4) this] show ?thesis by simp
qed

theorem truncation_detected_witness:
  "model_value (DataInput [GoString [0x66, 0x6F, 0x6F], GoInt32 42])
   \<and> allocated (DataInput [GoString [0x66, 0x6F, 0x6F], GoInt32 42])
   \<and> encode (DataInput [GoString [0x66, 0x6F, 0x6F], GoInt32 42])
       = Returns ([0x03, 0x02, 0x01, 0x03, 0x66, 0x6F] @ [0x6F, 0x02, 0x2A, 0x00, 0x00, 0x00])
   \<and> (\<exists>e. decodeElement [0x03, 0x02, 0x01, 0x03, 0x66, 0x6F] 0 = Returns (GoNil, 0, Some e)
          \<and> TruncatedInput e)"
proof -
  let ?v = "DataInput [GoString [0x66, 0x6F, 0x6F], GoInt32 42]"
  have m: "model_value ?v" by simp
  have a: "allocated ?v" by (simp add: maxAlloc_def)
  have e: "encode ?v = Returns ([0x03, 0x02, 0x01, 0x03, 0x66, 0x6F] @ [0x6F, 0x02, 0x2A, 0x00, 0x00, 0x00])"
    by (simp add: encode_def encodeVarint_def encodeVarint_loop.simps tag_defs buffer_defs
          PutUint32_def)
  have q: "[0x6F, 0x02, 0x2A, 0x00, 0x00, 0x00] \<noteq> ([] :: byte list)" by simp
  have l: "length ([0x03, 0x02, 0x01, 0x03, 0x66, 0x6F] @ [0x6F, 0x02, 0x2A, 0x00, 0x00, 0x00 :: byte]) < 2 ^ 63"
    by simp
  from truncation_detected[OF m a e q l] m a e show ?thesis by blast
qed

section \<open>Malformed input\<close>

text \<open>
  Claim C2. \<^verbatim>\<open>decode\<close> panics on two inputs of eleven bytes. After the tag 01 the
  varint FF FF FF FF FF FF FF FF FF 01 decodes to the length \<open>2 ^ 64 - 1\<close>, which is
  \<open>-1\<close> as an \<^verbatim>\<open>int\<close>; the test \<^verbatim>\<open>offset+int(length) > len(data)\<close> compares 10 with
  11 and passes, and the slice expression \<^verbatim>\<open>data[11:10]\<close> panics. After the tag 03
  the same varint is the capacity given to \<^verbatim>\<open>make\<close>, which panics.
\<close>

theorem decode_panics:
  "decode [0x01, 0xFF, 0xFF, 0xFF, 0xFF, 0xFF, 0xFF, 0xFF, 0xFF, 0xFF, 0x01]
     = Panics SliceBoundsOutOfRange
   \<and> decode [0x03, 0xFF, 0xFF, 0xFF, 0xFF, 0xFF, 0xFF, 0xFF, 0xFF, 0xFF, 0x01]
     = Panics MakesliceCapOutOfRange"
  by (simp add: decode_def decodeElement.simps decodeVarint_def decodeVarint_loop.simps tag_defs
        makeslice_ok_def maxAlloc_def)

subsection \<open>What the caller of decode receives when parsing fails\<close>

lemma decodeElement_error_shape:
  "decodeElement data offset = Returns (v, n, Some e) \<Longrightarrow> v = GoNil \<and> n = 0"
  "decodeElement_loop data count i offset elements = Returns (v, n, Some e) \<Longrightarrow> v = GoNil \<and> n = 0"
proof (induction data offset and data count i offset elements
       arbitrary: v n e and v n e rule: decodeElement_decodeElement_loop.induct)
  case (1 data offset)
  from "1.prems" show ?case
    apply (subst (asm) decodeElement.simps)
    apply (simp add: Let_def split: if_splits prod.splits option.splits)
    apply (auto dest: "1.IH"[rotated -1])
    done
next
  case (2 data count i offset elements)
  show ?case
  proof (cases "decodeElement data offset")
    case (Panics p)
    with "2.prems" show ?thesis
      by (subst (asm) decodeElement_loop.simps) (simp split: if_splits)
  next
    case (Returns r)
    obtain elem bytesRead err where r: "r = (elem, bytesRead, err)" by (cases r)
    show ?thesis
    proof (cases err)
      case (Some err')
      with "2.prems" Returns r show ?thesis
        by (subst (asm) decodeElement_loop.simps) (simp split: if_splits)
    next
      case None
      show ?thesis
      proof (cases "int i < sint count")
        case True
        with "2.prems" Returns r None
        have "decodeElement_loop data count (i + 1) bytesRead (elements @ [elem])
                = Returns (v, n, Some e)"
          by (subst (asm) decodeElement_loop.simps) simp
        from "2.IH"(2)[OF True Returns[unfolded r None] refl refl refl this] show ?thesis .
      next
        case False
        with "2.prems" show ?thesis
          by (subst (asm) decodeElement_loop.simps) simp
      qed
    qed
  qed
qed

text \<open>
  Claim C3, as stated, fails. On the input 01 05 66, a string of declared length 5
  with one byte of payload, \<^verbatim>\<open>decodeElement\<close> returns the error "string length
  exceeds data", and \<^verbatim>\<open>decode\<close> returns \<^verbatim>\<open>nil\<close> with no error: the result it also
  returns for the byte 00, the encoding of \<^verbatim>\<open>nil\<close>.
\<close>

theorem decode_error_default_counterexample:
  "decodeElement [0x01, 0x05, 0x66] 0 = Returns (GoNil, 0, Some StringLengthExceedsData)
   \<and> decode [0x01, 0x05, 0x66] = Returns GoNil
   \<and> decode [0x00] = Returns GoNil"
  by (simp add: decode_def decodeElement.simps decodeVarint_def decodeVarint_loop.simps tag_defs)

text \<open>
  Claim C3, amended. Whenever \<^verbatim>\<open>decodeElement\<close> reports an error on an input, the
  element it returns is \<^verbatim>\<open>nil\<close> and the offset is 0, never a partial element; and
  \<^verbatim>\<open>decode\<close> drops the error and returns \<^verbatim>\<open>nil\<close> to its caller.
\<close>

theorem decode_drops_error:
  assumes "decodeElement data 0 = Returns (v, n, Some e)"
  shows "v = GoNil \<and> n = 0 \<and> decode data = Returns GoNil"
  using assms decodeElement_error_shape(1)[OF assms] by (simp add: decode_def)

theorem decode_drops_error_witness:
  "decodeElement [0x7F] 0 = Returns (GoNil, 0, Some (UnknownTypeTag 0x7F))
   \<and> decode [0x7F] = Returns GoNil"
proof -
  have h: "decodeElement [0x7F] 0 = Returns (GoNil, 0, Some (UnknownTypeTag 0x7F))"
    by (simp add: decodeElement.simps tag_defs)
  from decode_drops_error[OF h] h show ?thesis by simp
qed


end
